theory Spec2Isabelle
  imports Main "HOL-Library.Sublist"
begin

section \<open>Data model\<close>

text \<open>
  A \<open>vscode.Tab\<close> is a JavaScript object. The code compares tabs with
  \<open>Array.prototype.indexOf\<close>, that is by strict equality, which on objects is identity of
  reference. A tab sequence is therefore a list of object references; equality of two
  references is JavaScript's \<open>===\<close>. Two different tab objects may carry the same
  attributes. A tab group of the host holds every tab object once.
\<close>

type_synonym tab_ref = nat

text \<open>
  The options object \<open>typeof this.defaultOptions\<close>. An optional field that is absent
  (\<open>undefined\<close>) is \<open>None\<close>. At run time \<open>direction\<close> is whatever string the configuration
  holds, so it is a string here and not only one of the three names of the declared type.
\<close>

record options =
  blockMoveFilters :: "string list"
  direction :: "string option"
  padding :: "int option"
  enabled :: "bool option"

text \<open>
  The attributes of a tab object that the code reads. \<open>input\<close> is tested with
  \<open>instanceof\<close> against the classes of the host; the three classes with a \<open>uri\<close> carry it.
\<close>

record uri =
  uriPath :: string
  fsPath :: string

datatype tab_input =
    TabInputText uri
  | TabInputTextDiff
  | TabInputNotebook uri
  | TabInputNotebookDiff
  | TabInputCustom uri
  | TabInputWebview
  | TabInputTerminal
  | TabInputUnknown

record tab =
  isActive :: bool
  isPinned :: bool
  isDirty :: bool
  isPreview :: bool
  label :: string
  input :: tab_input

text \<open>
  A \<open>TextDocument\<close> or \<open>NotebookDocument\<close> as far as the filters read it; a notebook
  document has no \<open>languageId\<close>.
\<close>

record text_document =
  isUntitled :: bool
  languageId :: "string option"

text \<open>An exception thrown by the JavaScript run time or by a library.\<close>

datatype js_error = TypeError

text \<open>
  What the code takes from outside the repository: the process environment, Node's
  \<open>path\<close> module, the editor state of the host and the \<open>micromatch\<close> library (which may
  throw). \<open>lookupDocument\<close> is the document that the host's editors and the weak
  document cache give for a \<open>uri.path\<close>; during one evaluation it is a function of that
  path.
\<close>

record host =
  env_HOME :: "string option"
  env_USERPROFILE :: "string option"
  process_cwd :: string
  platform_win32 :: bool
  path_sep :: char
  path_relative :: "string \<Rightarrow> string \<Rightarrow> string"
  path_dirname :: "string \<Rightarrow> string"
  path_basename :: "string \<Rightarrow> string"
  path_parse_name :: "string \<Rightarrow> string"
  path_extname :: "string \<Rightarrow> string"
  activeTextEditorUri :: "uri option"
  activeNotebookEditorUri :: "uri option"
  getWorkspaceFolder :: "uri \<Rightarrow> uri option"
  lookupDocument :: "string \<Rightarrow> text_document option"
  micromatch_isMatch :: "bool \<Rightarrow> string \<Rightarrow> string \<Rightarrow> js_error + bool"

definition isMatch :: "host \<Rightarrow> string \<Rightarrow> string \<Rightarrow> js_error + bool" where
  "isMatch h subject pattern = micromatch_isMatch h (platform_win32 h) subject pattern"

text \<open>
  \<open>getDocument\<close> looks a document up by \<open>uri.path\<close>, in the weak document cache first and
  then in the editors and documents of the host, and keeps what it finds in the cache. All
  of this is state of the host; what the lookup gives for a path is \<open>lookupDocument\<close>.
\<close>

definition getDocument :: "host \<Rightarrow> uri \<Rightarrow> text_document option" where
  "getDocument h u = lookupDocument h (uriPath u)"

definition getTabUri :: "tab \<Rightarrow> uri option" where
  "getTabUri t =
     (case input t of
        TabInputText u \<Rightarrow> Some u
      | TabInputNotebook u \<Rightarrow> Some u
      | TabInputCustom u \<Rightarrow> Some u
      | _ \<Rightarrow> None)"

section \<open>JavaScript string operations\<close>

text \<open>
  \<open>GetSubstitution\<close> of ECMAScript for a match without capture groups: in the
  replacement text \<open>$$\<close> stands for a dollar sign, \<open>$&\<close> for the matched text,
  a dollar sign and a grave accent (character \<open>0x60\<close>) for the text before the match,
  a dollar sign and an apostrophe (character \<open>0x27\<close>) for the text after it; every
  other dollar sign stands for itself.
\<close>

fun getSubstitution :: "string \<Rightarrow> string \<Rightarrow> string \<Rightarrow> string \<Rightarrow> string" where
  "getSubstitution matched preceding following [] = []"
| "getSubstitution matched preceding following [c] = [c]"
| "getSubstitution matched preceding following (c # d # r) =
     (if c = CHR ''$'' \<and> d = CHR ''$'' then CHR ''$'' # getSubstitution matched preceding following r
      else if c = CHR ''$'' \<and> d = CHR ''&'' then matched @ getSubstitution matched preceding following r
      else if c = CHR ''$'' \<and> d = CHR 0x60 then preceding @ getSubstitution matched preceding following r
      else if c = CHR ''$'' \<and> d = CHR 0x27 then following @ getSubstitution matched preceding following r
      else c # getSubstitution matched preceding following (d # r))"

text \<open>
  \<open>String.prototype.replace\<close> with a global regular expression that matches the literal
  text \<open>pat\<close>: every occurrence, found from left to right in the original string and
  not overlapping, is replaced. \<open>preceding\<close> is the part of the original string already
  passed.
\<close>

function replaceAllScan :: "string \<Rightarrow> string \<Rightarrow> string \<Rightarrow> string \<Rightarrow> string" where
  "replaceAllScan pat rep preceding s =
     (if s = [] then []
      else if pat \<noteq> [] \<and> prefix pat s then
        getSubstitution pat preceding (drop (length pat) s) rep
          @ replaceAllScan pat rep (preceding @ pat) (drop (length pat) s)
      else hd s # replaceAllScan pat rep (preceding @ [hd s]) (tl s))"
  by pat_completeness auto
termination
  by (relation "measure (\<lambda>(pat, rep, preceding, s). length s)") auto

declare replaceAllScan.simps [simp del]

definition replaceAll :: "string \<Rightarrow> string \<Rightarrow> string \<Rightarrow> string" where
  "replaceAll pat rep s = replaceAllScan pat rep [] s"

text \<open>
  \<open>String.prototype.replace\<close> with a string pattern: only the first occurrence is
  replaced.
\<close>

fun replaceFirstScan :: "string \<Rightarrow> string \<Rightarrow> string \<Rightarrow> string \<Rightarrow> string" where
  "replaceFirstScan pat rep preceding [] =
     (if pat = [] then getSubstitution pat preceding [] rep else [])"
| "replaceFirstScan pat rep preceding (c # cs) =
     (if prefix pat (c # cs) then
        getSubstitution pat preceding (drop (length pat) (c # cs)) rep @ drop (length pat) (c # cs)
      else c # replaceFirstScan pat rep (preceding @ [c]) cs)"

definition replaceFirst :: "string \<Rightarrow> string \<Rightarrow> string \<Rightarrow> string" where
  "replaceFirst pat rep s = replaceFirstScan pat rep [] s"

text \<open>
  \<open>String.prototype.trim\<close>. A \<open>char\<close> is one code unit below 256, so the white space of
  JavaScript is the six ASCII characters and the no-break space.
\<close>

definition isWhiteSpace :: "char \<Rightarrow> bool" where
  "isWhiteSpace c =
     (c \<in> set [CHR 0x09, CHR 0x0A, CHR 0x0B, CHR 0x0C, CHR 0x0D, CHR 0x20, CHR 0xA0])"

definition trim :: "string \<Rightarrow> string" where
  "trim s = rev (dropWhile isWhiteSpace (rev (dropWhile isWhiteSpace s)))"

text \<open>\<open>s.split(sep).pop()\<close> for a separator of one character: the text following its last occurrence.\<close>

definition lastSegment :: "char \<Rightarrow> string \<Rightarrow> string" where
  "lastSegment sep s = rev (takeWhile (\<lambda>c. c \<noteq> sep) (rev s))"

section \<open>Variable resolver\<close>

text \<open>The parameter \<open>args\<close> of \<open>resolveVariables\<close>, each field the \<open>uri\<close> of the object given.\<close>

record resolve_args =
  args_document :: "uri option"
  args_workspaceFolder :: "uri option"

definition getActiveFileUri :: "host \<Rightarrow> uri option" where
  "getActiveFileUri h =
     (case activeTextEditorUri h of Some u \<Rightarrow> Some u | None \<Rightarrow> activeNotebookEditorUri h)"

definition getActiveWorkspaceFolder :: "host \<Rightarrow> uri option" where
  "getActiveWorkspaceFolder h =
     (case getActiveFileUri h of None \<Rightarrow> None | Some u \<Rightarrow> getWorkspaceFolder h u)"

definition variables_userHome :: "host \<Rightarrow> string" where
  "variables_userHome h =
     (case env_HOME h of
        Some v \<Rightarrow> if v \<noteq> [] then v
                  else (case env_USERPROFILE h of Some w \<Rightarrow> w | None \<Rightarrow> [])
      | None \<Rightarrow> (case env_USERPROFILE h of Some w \<Rightarrow> w | None \<Rightarrow> []))"

definition variables_workspaceFolder :: "host \<Rightarrow> resolve_args \<Rightarrow> string" where
  "variables_workspaceFolder h args =
     (case (case args_workspaceFolder args of Some f \<Rightarrow> Some f | None \<Rightarrow> getActiveWorkspaceFolder h) of
        Some f \<Rightarrow> fsPath f
      | None \<Rightarrow> [])"

definition variables_file :: "host \<Rightarrow> resolve_args \<Rightarrow> string" where
  "variables_file h args =
     (case (case args_document args of Some u \<Rightarrow> Some u | None \<Rightarrow> getActiveFileUri h) of
        Some u \<Rightarrow> fsPath u
      | None \<Rightarrow> [])"

definition variables_fileWorkspaceFolder :: "host \<Rightarrow> resolve_args \<Rightarrow> string" where
  "variables_fileWorkspaceFolder h args =
     (case (case args_document args of Some u \<Rightarrow> Some u | None \<Rightarrow> getActiveFileUri h) of
        Some u \<Rightarrow> (case getWorkspaceFolder h u of Some f \<Rightarrow> fsPath f | None \<Rightarrow> [])
      | None \<Rightarrow> [])"

definition variables_relativeFile :: "host \<Rightarrow> resolve_args \<Rightarrow> string" where
  "variables_relativeFile h args =
     path_relative h (variables_file h args) (variables_fileWorkspaceFolder h args)"

definition variables_fileDirname :: "host \<Rightarrow> resolve_args \<Rightarrow> string" where
  "variables_fileDirname h args = path_dirname h (variables_file h args)"

text \<open>
  \<open>Object.entries(variables)\<close> with every producer applied to \<open>args\<close>: the names in the
  order of the object literal, each with the value that its producer returns.
\<close>

definition variables :: "host \<Rightarrow> resolve_args \<Rightarrow> (string \<times> string) list" where
  "variables h args =
     [(''userHome'', variables_userHome h),
      (''workspaceFolder'', variables_workspaceFolder h args),
      (''workspaceFolderBasename'', lastSegment (path_sep h) (variables_workspaceFolder h args)),
      (''file'', variables_file h args),
      (''fileWorkspaceFolder'', variables_fileWorkspaceFolder h args),
      (''relativeFile'', variables_relativeFile h args),
      (''relativeFileDirname'', path_dirname h (variables_relativeFile h args)),
      (''fileBasename'', path_basename h (variables_file h args)),
      (''fileBasenameNoExtension'', path_parse_name h (variables_file h args)),
      (''fileExtname'', path_extname h (variables_file h args)),
      (''fileDirname'', variables_fileDirname h args),
      (''fileDirnameBasename'', path_basename h (variables_fileDirname h args)),
      (''cwd'', process_cwd h),
      (''pathSeparator'', [path_sep h]),
      (''/'', [path_sep h])]"

text \<open>\<open>Object.keys(variables)\<close>, the names for which \<open>variablePattern\<close> holds a pattern.\<close>

definition variableNames :: "string list" where
  "variableNames =
     [''userHome'', ''workspaceFolder'', ''workspaceFolderBasename'', ''file'',
      ''fileWorkspaceFolder'', ''relativeFile'', ''relativeFileDirname'', ''fileBasename'',
      ''fileBasenameNoExtension'', ''fileExtname'', ''fileDirname'', ''fileDirnameBasename'',
      ''cwd'', ''pathSeparator'', ''/'']"

text \<open>
  \<open>variablePattern[k]\<close> is the global regular expression with source \<open>\$\{k}\<close>; for the
  names of the table it matches exactly the text below.
\<close>

definition variablePattern :: "string \<Rightarrow> string" where
  "variablePattern k = ''${'' @ k @ ''}''"

text \<open>The passes of \<open>resolveVariables\<close> over a list of entries, one global replacement each.\<close>

definition resolvePasses :: "(string \<times> string) list \<Rightarrow> string \<Rightarrow> string" where
  "resolvePasses entries v =
     foldl (\<lambda>resolved entry. replaceAll (variablePattern (fst entry)) (snd entry) resolved) v entries"

definition resolveVariables :: "host \<Rightarrow> resolve_args \<Rightarrow> string \<Rightarrow> string" where
  "resolveVariables h args v = resolvePasses (variables h args) v"

section \<open>Filter registry, custom filters and the blocking predicate\<close>

text \<open>The own properties of \<open>filterMap\<close>, in the order of the object literal.\<close>

definition filterMap :: "host \<Rightarrow> (string \<times> (tab \<Rightarrow> bool)) list" where
  "filterMap h =
     [(''pinned'', \<lambda>t. isPinned t),
      (''dirty'', \<lambda>t. isDirty t),
      (''preview'', \<lambda>t. isPreview t),
      (''text'', \<lambda>t. case input t of TabInputText u \<Rightarrow> True | _ \<Rightarrow> False),
      (''diff'', \<lambda>t. case input t of TabInputTextDiff \<Rightarrow> True | _ \<Rightarrow> False),
      (''notebook'', \<lambda>t. case input t of TabInputNotebook u \<Rightarrow> True | _ \<Rightarrow> False),
      (''notebook_diff'', \<lambda>t. case input t of TabInputNotebookDiff \<Rightarrow> True | _ \<Rightarrow> False),
      (''webview'', \<lambda>t. case input t of TabInputWebview \<Rightarrow> True | _ \<Rightarrow> False),
      (''terminal'', \<lambda>t. case input t of TabInputTerminal \<Rightarrow> True | _ \<Rightarrow> False),
      (''untitled'', \<lambda>t.
         case input t of
           TabInputText u \<Rightarrow> (case getDocument h u of Some d \<Rightarrow> isUntitled d | None \<Rightarrow> False)
         | TabInputNotebook u \<Rightarrow> (case getDocument h u of Some d \<Rightarrow> isUntitled d | None \<Rightarrow> False)
         | _ \<Rightarrow> False)]"

text \<open>
  \<open>filterMap\<close> is an object literal, so \<open>this.filterMap[f]\<close> also finds the properties
  that every object inherits from \<open>Object.prototype\<close>. The code calls what it finds as
  \<open>m(tab)\<close>, with \<open>this\<close> undefined, and tests the result for truthiness:
  \<open>constructor\<close> is \<open>Object\<close>, which returns the tab object it is given (truthy);
  \<open>toString\<close> returns the string \<open>[object Undefined]\<close> (truthy); the other inherited
  functions convert the undefined \<open>this\<close> to an object and throw a \<open>TypeError\<close>, and
  \<open>__proto__\<close> is an object, so calling it throws a \<open>TypeError\<close>.
\<close>

definition objectPrototype :: "(string \<times> (tab \<Rightarrow> js_error + bool)) list" where
  "objectPrototype =
     [(''constructor'', \<lambda>t. Inr True),
      (''__defineGetter__'', \<lambda>t. Inl TypeError),
      (''__defineSetter__'', \<lambda>t. Inl TypeError),
      (''hasOwnProperty'', \<lambda>t. Inl TypeError),
      (''__lookupGetter__'', \<lambda>t. Inl TypeError),
      (''__lookupSetter__'', \<lambda>t. Inl TypeError),
      (''isPrototypeOf'', \<lambda>t. Inl TypeError),
      (''propertyIsEnumerable'', \<lambda>t. Inl TypeError),
      (''toString'', \<lambda>t. Inr True),
      (''valueOf'', \<lambda>t. Inl TypeError),
      (''__proto__'', \<lambda>t. Inl TypeError),
      (''toLocaleString'', \<lambda>t. Inl TypeError)]"

text \<open>
  \<open>this.filterMap[f]\<close>: an own property first, an inherited one otherwise, \<open>None\<close> for
  \<open>undefined\<close>. The function found gives the truthiness of \<open>m(tab)\<close> or the exception.
\<close>

definition filterMapLookup :: "host \<Rightarrow> string \<Rightarrow> (tab \<Rightarrow> js_error + bool) option" where
  "filterMapLookup h f =
     (case map_of (filterMap h) f of
        Some m \<Rightarrow> Some (\<lambda>t. Inr (m t))
      | None \<Rightarrow> map_of objectPrototype f)"

text \<open>
  \<open>filterMapCustom\<close>: each entry as the pair of its \<open>prefix\<close> and its \<open>match\<close>. The
  operator \<open>&&\<close> evaluates the pattern match only when the tests before it hold.
\<close>

definition filterMapCustom :: "host \<Rightarrow> (string \<times> (tab \<Rightarrow> string \<Rightarrow> js_error + bool)) list" where
  "filterMapCustom h =
     [(''title:'', \<lambda>t filter.
         if prefix ''title:'' filter
         then isMatch h (label t) (trim (replaceFirst ''title:'' [] filter))
         else Inr False),
      (''path:'', \<lambda>t filter.
         if prefix ''path:'' filter
         then isMatch h (case getTabUri t of Some u \<Rightarrow> fsPath u | None \<Rightarrow> [])
                (trim (replaceFirst ''path:'' [] filter))
         else Inr False),
      (''lang:'', \<lambda>t filter.
         case input t of
           TabInputText u \<Rightarrow>
             if prefix ''lang:'' filter
             then isMatch h
                    (case getDocument h u of
                       Some d \<Rightarrow> (case languageId d of Some l \<Rightarrow> l | None \<Rightarrow> [])
                     | None \<Rightarrow> [])
                    (trim (replaceFirst ''lang:'' [] filter))
             else Inr False
         | _ \<Rightarrow> Inr False)]"

definition findCustomMap ::
  "host \<Rightarrow> string \<Rightarrow> (string \<times> (tab \<Rightarrow> string \<Rightarrow> js_error + bool)) option" where
  "findCustomMap h rFilter = List.find (\<lambda>f. prefix (fst f) rFilter) (filterMapCustom h)"

definition hasPrefix :: "host \<Rightarrow> string \<Rightarrow> bool" where
  "hasPrefix h f = list_ex (\<lambda>p. prefix p f) (map fst (filterMapCustom h))"

text \<open>
  \<open>resolvedFilters\<close>, the cache of the predicate's closure: from a \<open>path:\<close> token to its
  text with the variables resolved. It is an object literal too, but no inherited
  property name starts with \<open>path:\<close>, the only keys it is read at.
\<close>

type_synonym resolved_filters = "string \<Rightarrow> string option"

definition noArgs :: resolve_args where
  "noArgs = \<lparr>args_document = None, args_workspaceFolder = None\<rparr>"

definition resolveFilter :: "host \<Rightarrow> resolved_filters \<Rightarrow> string \<Rightarrow> string \<times> resolved_filters" where
  "resolveFilter h resolvedFilters f =
     (if list_ex (\<lambda>p. prefix p f) [''path:''] then
        (case resolvedFilters f of
           None \<Rightarrow> (resolveVariables h noArgs f, resolvedFilters(f \<mapsto> resolveVariables h noArgs f))
         | Some r \<Rightarrow> (r, resolvedFilters))
      else (f, resolvedFilters))"

text \<open>
  The body of the loop \<open>for (const f of filters)\<close> for one token: \<open>Inr True\<close> when the
  body returns \<open>true\<close>, \<open>Inr False\<close> when it falls through to the next token, \<open>Inl\<close> when
  it throws.
\<close>

definition filterStep ::
  "host \<Rightarrow> tab \<Rightarrow> resolved_filters \<Rightarrow> string \<Rightarrow> (js_error + bool) \<times> resolved_filters" where
  "filterStep h t resolvedFilters f =
     (let (rFilter, resolvedFilters') =
            (if hasPrefix h f then resolveFilter h resolvedFilters f else (f, resolvedFilters));
          custom =
            (if hasPrefix h f then
               (case findCustomMap h rFilter of
                  None \<Rightarrow> Inr False
                | Some customFilter \<Rightarrow> snd customFilter t rFilter)
             else Inr False)
      in case custom of
           Inl e \<Rightarrow> (Inl e, resolvedFilters')
         | Inr True \<Rightarrow> (Inr True, resolvedFilters')
         | Inr False \<Rightarrow>
             (case filterMapLookup h f of
                None \<Rightarrow> (Inr False, resolvedFilters')
              | Some m \<Rightarrow> (m t, resolvedFilters')))"

fun blockingLoop ::
  "host \<Rightarrow> tab \<Rightarrow> resolved_filters \<Rightarrow> string list \<Rightarrow> (js_error + bool) \<times> resolved_filters" where
  "blockingLoop h t resolvedFilters [] = (Inr False, resolvedFilters)"
| "blockingLoop h t resolvedFilters (f # fs) =
     (case filterStep h t resolvedFilters f of
        (Inr False, resolvedFilters') \<Rightarrow> blockingLoop h t resolvedFilters' fs
      | (r, resolvedFilters') \<Rightarrow> (r, resolvedFilters'))"

text \<open>
  \<open>isBlockingPredicate\<close>: the result, or the exception that escapes it, and the cache
  after the call.
\<close>

definition isBlockingPredicate ::
  "host \<Rightarrow> resolved_filters \<Rightarrow> tab \<Rightarrow> options \<Rightarrow> (js_error + bool) \<times> resolved_filters" where
  "isBlockingPredicate h resolvedFilters t opts =
     blockingLoop h t resolvedFilters (blockMoveFilters opts)"

section \<open>Options resolver\<close>

definition defaultBlockMoveFilters :: "string list" where
  "defaultBlockMoveFilters = [''pinned'']"

text \<open>
  The methods below start with \<open>const options = this.getOptions(scope)\<close>; the options
  object that the configuration store returns there is their argument.
\<close>

definition getMoveDirectionOption :: "options \<Rightarrow> string" where
  "getMoveDirectionOption opts =
     (case direction opts of
        None \<Rightarrow> ''left''
      | Some d \<Rightarrow>
          if d = [] \<or> d = ''auto'' then ''left''
          else if d \<in> set [''left'', ''right''] then d else ''left'')"

definition getEnabledOption :: "options \<Rightarrow> bool" where
  "getEnabledOption opts = (case enabled opts of None \<Rightarrow> True | Some e \<Rightarrow> e)"

definition getPaddingOption :: "options \<Rightarrow> int" where
  "getPaddingOption opts = (case padding opts of None \<Rightarrow> 0 | Some p \<Rightarrow> p)"

definition getBlockMoveFiltersOption :: "options \<Rightarrow> string list" where
  "getBlockMoveFiltersOption opts =
     (if list_ex (\<lambda>filter. filter \<in> set defaultBlockMoveFilters) (blockMoveFilters opts)
      then blockMoveFilters opts
      else defaultBlockMoveFilters)"


section \<open>Position calculator\<close>

text \<open>\<open>Array.prototype.indexOf\<close>: the first index holding the element, \<open>-1\<close> when none does.\<close>

fun indexOfFrom :: "int \<Rightarrow> 'a list \<Rightarrow> 'a \<Rightarrow> int" where
  "indexOfFrom k [] x = - 1"
| "indexOfFrom k (y # ys) x = (if y = x then k else indexOfFrom (k + 1) ys x)"

definition indexOf :: "'a list \<Rightarrow> 'a \<Rightarrow> int" where
  "indexOf xs x = indexOfFrom 0 xs x"

text \<open>\<open>Array.prototype.findLast\<close>: the last element satisfying the test.\<close>

definition findLast :: "('a \<Rightarrow> bool) \<Rightarrow> 'a list \<Rightarrow> 'a option" where
  "findLast P xs = List.find P (rev xs)"

text \<open>
  \<open>blockingTabIndexes\<close>: \<open>tabs.filter(...).map((tab) => tabs.indexOf(tab))\<close>. The guard
  \<open>if (tabs)\<close> holds for every array.
\<close>

definition blockingTabIndexes ::
  "tab_ref list \<Rightarrow> (tab_ref \<Rightarrow> options \<Rightarrow> bool) \<Rightarrow> options \<Rightarrow> int list" where
  "blockingTabIndexes tabs predicate opts =
     map (\<lambda>tab. indexOf tabs tab) (filter (\<lambda>tab. predicate tab opts) tabs)"

text \<open>
  The statement \<open>if (padding) moveDelta = Math.max(0, moveDelta - padding)\<close>: the test is
  false for an absent padding and for \<open>0\<close>.
\<close>

definition applyPadding :: "int option \<Rightarrow> int \<Rightarrow> int" where
  "applyPadding pad moveDelta =
     (case pad of
        None \<Rightarrow> moveDelta
      | Some p \<Rightarrow> if p \<noteq> 0 then max 0 (moveDelta - p) else moveDelta)"

text \<open>
  \<open>getStackPosition\<close>. \<open>tabs[currentTabIndex]\<close> is \<open>undefined\<close> outside the array, which
  the first test turns into "no move" (\<open>None\<close>). A direction other than \<open>left\<close> and
  \<open>right\<close> matches no \<open>case\<close> of the \<open>switch\<close> and leaves \<open>moveDelta\<close> at \<open>-1\<close>.
\<close>

definition getStackPosition ::
  "int \<Rightarrow> tab_ref list \<Rightarrow> (tab_ref \<Rightarrow> options \<Rightarrow> bool) \<Rightarrow> options \<Rightarrow> int option" where
  "getStackPosition currentTabIndex tabs predicate opts =
     (if currentTabIndex < 0 \<or> int (length tabs) \<le> currentTabIndex then None
      else if predicate (tabs ! nat currentTabIndex) opts then None
      else
        let filteredIndexes = blockingTabIndexes tabs predicate opts;
            moveDelta =
              (if direction opts = Some ''left'' then
                 applyPadding (padding opts)
                   (case findLast (\<lambda>index. index < currentTabIndex) filteredIndexes of
                      None \<Rightarrow> \<bar>0 - currentTabIndex\<bar>
                    | Some blockingIndex \<Rightarrow> currentTabIndex - blockingIndex - 1)
               else if direction opts = Some ''right'' then
                 applyPadding (padding opts)
                   (case List.find (\<lambda>index. index > currentTabIndex) filteredIndexes of
                      None \<Rightarrow> int (length tabs) - currentTabIndex - 1
                    | Some blockingIndex \<Rightarrow> blockingIndex - currentTabIndex - 1)
               else - 1)
        in if moveDelta < 0 then None else Some moveDelta)"

section \<open>Example data\<close>

text \<open>
  Tab objects for the concrete cases below: the object with reference \<open>7\<close> is pinned, every
  other object is not. \<open>pinnedIn\<close> is a predicate that blocks the pinned tabs of a store,
  and \<open>exampleOptions\<close> builds an options object with a direction and a padding.
\<close>

definition exampleTab :: "bool \<Rightarrow> tab" where
  "exampleTab pinned =
     \<lparr>isActive = False, isPinned = pinned, isDirty = False, isPreview = False,
      label = [], input = TabInputUnknown\<rparr>"

definition exampleStore :: "tab_ref \<Rightarrow> tab" where
  "exampleStore r = exampleTab (r = 7)"

definition pinnedIn :: "(tab_ref \<Rightarrow> tab) \<Rightarrow> tab_ref \<Rightarrow> options \<Rightarrow> bool" where
  "pinnedIn store r opts = isPinned (store r)"

definition exampleOptions :: "string \<Rightarrow> int \<Rightarrow> options" where
  "exampleOptions d p =
     \<lparr>blockMoveFilters = [''pinned''], direction = Some d, padding = Some p, enabled = Some True\<rparr>"

text \<open>
  A host for the concrete cases: the home directory is the text \<open>${cwd}\<close>, the working
  directory is \<open>/x/${userHome}\<close>, no editor is open, and the pattern matcher accepts a
  subject equal to the pattern and throws a \<open>TypeError\<close> for the empty pattern, as
  \<open>micromatch\<close> does.
\<close>

definition exampleHost :: host where
  "exampleHost =
     \<lparr>env_HOME = Some ''${cwd}'', env_USERPROFILE = None, process_cwd = ''/x/${userHome}'',
      platform_win32 = False, path_sep = CHR ''/'',
      path_relative = (\<lambda>from to. []), path_dirname = (\<lambda>p. []), path_basename = (\<lambda>p. []),
      path_parse_name = (\<lambda>p. []), path_extname = (\<lambda>p. []),
      activeTextEditorUri = None, activeNotebookEditorUri = None,
      getWorkspaceFolder = (\<lambda>u. None), lookupDocument = (\<lambda>p. None),
      micromatch_isMatch =
        (\<lambda>windows subject pattern.
           if pattern = [] then Inl TypeError else Inr (subject = pattern))\<rparr>"

section \<open>Notions used in the proofs\<close>

text \<open>
  A name without a dollar sign and without a closing brace: its token \<open>${name}\<close> starts
  at its only dollar sign and ends at its only closing brace.
\<close>

definition plainName :: "string \<Rightarrow> bool" where
  "plainName k = (CHR ''$'' \<notin> set k \<and> CHR ''}'' \<notin> set k)"


section \<open>Properties of the position calculator\<close>

lemma indexOfFrom_nth:
  "distinct xs \<Longrightarrow> i < length xs \<Longrightarrow> indexOfFrom k xs (xs ! i) = k + int i"
proof (induction xs arbitrary: i k)
  case Nil
  then show ?case by simp
next
  case (Cons y ys)
  show ?case
  proof (cases i)
    case 0
    then show ?thesis by simp
  next
    case (Suc j)
    with Cons.prems have "ys ! j \<in> set ys" by simp
    with Cons.prems have "y \<noteq> ys ! j" by auto
    moreover from Cons.prems Suc have "indexOfFrom (k + 1) ys (ys ! j) = k + 1 + int j"
      by (intro Cons.IH) auto
    ultimately show ?thesis using Suc by simp
  qed
qed

lemma filter_by_index:
  "filter P xs = map ((!) xs) (filter (\<lambda>i. P (xs ! i)) [0..<length xs])"
proof -
  have "filter P xs = filter P (map ((!) xs) [0..<length xs])"
    by (simp add: map_nth)
  also have "\<dots> = map ((!) xs) (filter (P \<circ> (!) xs) [0..<length xs])"
    by (simp only: filter_map)
  finally show ?thesis by (simp add: comp_def)
qed

lemma blockingTabIndexes_distinct:
  assumes "distinct tabs"
  shows "blockingTabIndexes tabs p opts =
         map int (filter (\<lambda>i. p (tabs ! i) opts) [0..<length tabs])"
proof -
  have "map (\<lambda>tab. indexOf tabs tab) (map ((!) tabs) (filter (\<lambda>i. p (tabs ! i) opts) [0..<length tabs]))
        = map int (filter (\<lambda>i. p (tabs ! i) opts) [0..<length tabs])"
    using assms by (auto simp: indexOf_def indexOfFrom_nth)
  then show ?thesis
    unfolding blockingTabIndexes_def
    by (subst filter_by_index) simp
qed

lemma indexOfFrom_first:
  "i < length xs \<Longrightarrow> \<exists>j\<le>i. indexOfFrom k xs (xs ! i) = k + int j \<and> xs ! j = xs ! i"
proof (induction xs arbitrary: i k)
  case Nil
  then show ?case by simp
next
  case (Cons y ys)
  show ?case
  proof (cases i)
    case 0
    then show ?thesis by simp
  next
    case (Suc i')
    show ?thesis
    proof (cases "y = ys ! i'")
      case True
      with Suc have "indexOfFrom k (y # ys) ((y # ys) ! i) = k + int 0 \<and> (y # ys) ! 0 = (y # ys) ! i"
        by simp
      then show ?thesis by blast
    next
      case False
      from Cons.prems Suc have "i' < length ys" by simp
      from Cons.IH[OF this, of "k + 1"] obtain j' where
        j': "j' \<le> i'" "indexOfFrom (k + 1) ys (ys ! i') = k + 1 + int j'" "ys ! j' = ys ! i'"
        by blast
      with False Suc have "Suc j' \<le> i \<and>
          indexOfFrom k (y # ys) ((y # ys) ! i) = k + int (Suc j') \<and> (y # ys) ! Suc j' = (y # ys) ! i"
        by simp
      then show ?thesis by blast
    qed
  qed
qed

lemma blockingTabIndexes_once:
  assumes "distinct (filter (\<lambda>tab. p tab opts) tabs)"
  shows "blockingTabIndexes tabs p opts =
         map int (filter (\<lambda>i. p (tabs ! i) opts) [0..<length tabs])"
proof -
  let ?I = "filter (\<lambda>i. p (tabs ! i) opts) [0..<length tabs]"
  have blocking: "filter (\<lambda>tab. p tab opts) tabs = map ((!) tabs) ?I"
    by (rule filter_by_index)
  with assms have "distinct (map ((!) tabs) ?I)" by simp
  then have inj: "inj_on ((!) tabs) (set ?I)" by (simp add: distinct_map)
  have own: "indexOf tabs (tabs ! i) = int i" if "i \<in> set ?I" for i
  proof -
    from that have i: "i < length tabs" "p (tabs ! i) opts" by simp_all
    from indexOfFrom_first[OF i(1), of 0] obtain j where
      j: "j \<le> i" "indexOf tabs (tabs ! i) = int j" "tabs ! j = tabs ! i"
      by (auto simp: indexOf_def)
    with i have "j \<in> set ?I" by simp
    with inj that j(3) have "j = i" by (auto dest: inj_onD)
    with j(2) show ?thesis by simp
  qed
  have "map (\<lambda>tab. indexOf tabs tab) (map ((!) tabs) ?I) = map int ?I"
    using own by simp
  then show ?thesis
    unfolding blockingTabIndexes_def by (simp only: blocking)
qed

lemma blocking_index_list_sorted:
  "sorted_wrt (<) (map int (filter Q [0..<n]))"
  by (simp add: sorted_wrt_map sorted_wrt_filter)

lemma blocking_index_list_set:
  "set (map int (filter Q [0..<n])) = {i. 0 \<le> i \<and> i < int n \<and> Q (nat i)}"
proof (rule set_eqI)
  fix i :: int
  show "i \<in> set (map int (filter Q [0..<n])) \<longleftrightarrow> i \<in> {i. 0 \<le> i \<and> i < int n \<and> Q (nat i)}"
  proof
    assume "i \<in> set (map int (filter Q [0..<n]))"
    then obtain k where "k < n" "Q k" "i = int k" by auto
    then show "i \<in> {i. 0 \<le> i \<and> i < int n \<and> Q (nat i)}" by simp
  next
    assume "i \<in> {i. 0 \<le> i \<and> i < int n \<and> Q (nat i)}"
    then have "nat i < n" "Q (nat i)" "i = int (nat i)" by auto
    then have "i \<in> int ` {k. k < n \<and> Q k}" by (intro image_eqI[where x = "nat i"]) simp_all
    then show "i \<in> set (map int (filter Q [0..<n]))" by simp
  qed
qed

lemma findLast_greatest:
  fixes ys :: "int list"
  assumes "sorted_wrt (<) ys" "b \<in> set ys" "b < c" "\<forall>y\<in>set ys. y \<le> b \<or> c \<le> y"
  shows "findLast (\<lambda>x. x < c) ys = Some b"
  using assms
proof (induction ys rule: rev_induct)
  case Nil
  then show ?case by simp
next
  case (snoc z zs)
  from snoc.prems(1) have sorted: "sorted_wrt (<) zs" and above: "\<forall>y\<in>set zs. y < z"
    by (auto simp: sorted_wrt_append)
  show ?case
  proof (cases "z < c")
    case True
    from snoc.prems(4) have "z \<le> b \<or> c \<le> z" by simp
    with True have "z \<le> b" by simp
    moreover from snoc.prems(2) above have "b \<le> z" by auto
    ultimately have "z = b" by simp
    with True show ?thesis by (simp add: findLast_def)
  next
    case False
    with snoc.prems(3) have "b \<noteq> z" by auto
    with snoc.prems(2) have "b \<in> set zs" by simp
    moreover from snoc.prems(4) have "\<forall>y\<in>set zs. y \<le> b \<or> c \<le> y" by simp
    ultimately have "findLast (\<lambda>x. x < c) zs = Some b"
      using sorted snoc.prems(3) by (intro snoc.IH)
    with False show ?thesis by (simp add: findLast_def)
  qed
qed

lemma find_least:
  fixes ys :: "int list"
  assumes "sorted_wrt (<) ys" "b \<in> set ys" "c < b" "\<forall>y\<in>set ys. y \<le> c \<or> b \<le> y"
  shows "List.find (\<lambda>x. x > c) ys = Some b"
  using assms
proof (induction ys)
  case Nil
  then show ?case by simp
next
  case (Cons z zs)
  from Cons.prems(1) have sorted: "sorted_wrt (<) zs" and below: "\<forall>y\<in>set zs. z < y"
    by auto
  show ?case
  proof (cases "c < z")
    case True
    from Cons.prems(4) have "z \<le> c \<or> b \<le> z" by simp
    with True have "b \<le> z" by simp
    moreover from Cons.prems(2) below have "z \<le> b" by auto
    ultimately have "z = b" by simp
    with True show ?thesis by simp
  next
    case False
    with Cons.prems(3) have "b \<noteq> z" by auto
    with Cons.prems(2) have "b \<in> set zs" by simp
    moreover from Cons.prems(4) have "\<forall>y\<in>set zs. y \<le> c \<or> b \<le> y" by simp
    ultimately have "List.find (\<lambda>x. x > c) zs = Some b"
      using sorted Cons.prems(3) by (intro Cons.IH)
    with False show ?thesis by simp
  qed
qed

lemma findLast_None: "findLast P xs = None \<longleftrightarrow> (\<forall>x\<in>set xs. \<not> P x)"
  by (auto simp: findLast_def find_None_iff)

lemma findLast_Some_holds: "findLast P xs = Some x \<Longrightarrow> P x"
  by (auto simp: findLast_def find_Some_iff)

lemma find_Some_holds: "List.find P xs = Some x \<Longrightarrow> P x"
  by (auto simp: find_Some_iff)

lemmas example_defs = exampleTab_def exampleStore_def pinnedIn_def exampleOptions_def

lemmas calc_defs = getStackPosition_def blockingTabIndexes_def indexOf_def findLast_def applyPadding_def

lemma raw_left_nonneg:
  "0 \<le> (case findLast (\<lambda>x. x < i) L of None \<Rightarrow> \<bar>0 - i\<bar> | Some b \<Rightarrow> i - b - (1::int))"
  by (auto split: option.splits dest: findLast_Some_holds)

lemma raw_right_nonneg:
  "i < n \<Longrightarrow> 0 \<le> (case List.find (\<lambda>x. x > i) L of None \<Rightarrow> n - i - 1 | Some b \<Rightarrow> b - i - (1::int))"
  by (auto split: option.splits dest: find_Some_holds)

lemma blockingTabIndexes_fixed:
  "blockingTabIndexes tabs (\<lambda>t _. predicate t opts) opts' = blockingTabIndexes tabs predicate opts"
  by (simp add: blockingTabIndexes_def)

subsection \<open>The blocking indexes\<close>

text \<open>
  Claim C9. For a tab sequence whose elements are pairwise distinct objects and for every
  predicate, \<open>blockingTabIndexes\<close> returns exactly the indexes at which the predicate
  holds, in strictly increasing order.
\<close>

theorem blockingTabIndexes_exact:
  assumes "distinct tabs"
  shows "sorted_wrt (<) (blockingTabIndexes tabs predicate opts) \<and>
         set (blockingTabIndexes tabs predicate opts) =
           {i. 0 \<le> i \<and> i < int (length tabs) \<and> predicate (tabs ! nat i) opts}"
  using assms
  by (simp only: blockingTabIndexes_distinct blocking_index_list_sorted blocking_index_list_set simp_thms)

text \<open>
  An instance: of three distinct tabs the first is pinned, and the result is \<open>[0]\<close>.
\<close>

theorem blockingTabIndexes_exact_witness:
  "distinct [7, 5, 6 :: tab_ref]
   \<and> blockingTabIndexes [7, 5, 6] (pinnedIn exampleStore) (exampleOptions ''left'' 0) = [0]
   \<and> sorted_wrt (<) (blockingTabIndexes [7, 5, 6] (pinnedIn exampleStore) (exampleOptions ''left'' 0))
   \<and> set (blockingTabIndexes [7, 5, 6] (pinnedIn exampleStore) (exampleOptions ''left'' 0)) =
       {i. 0 \<le> i \<and> i < int (length [7, 5, 6 :: tab_ref])
           \<and> pinnedIn exampleStore ([7, 5, 6] ! nat i) (exampleOptions ''left'' 0)}"
proof -
  have h: "distinct [7, 5, 6 :: tab_ref]" by simp
  have e: "blockingTabIndexes [7, 5, 6] (pinnedIn exampleStore) (exampleOptions ''left'' 0) = [0]"
    by (simp add: calc_defs example_defs)
  from h e blockingTabIndexes_exact[OF h, of "pinnedIn exampleStore" "exampleOptions ''left'' 0"]
  show ?thesis by blast
qed

subsection \<open>Direction left\<close>

text \<open>
  Claim C1. For every tab sequence, every active index in range whose tab is not blocking,
  direction \<open>left\<close> and padding 0, \<open>getStackPosition\<close> returns \<open>activeIndex - i - 1\<close>
  for the greatest blocking index \<open>i\<close> strictly below the active index when there is one,
  and \<open>activeIndex\<close> when there is none. A tab group of the host holds every tab object
  once; the proof needs this of the blocking tabs only, so the first hypothesis asks that no
  blocking tab object stands at two places of the sequence.
\<close>

theorem getStackPosition_left:
  assumes "distinct (filter (\<lambda>tab. predicate tab opts) tabs)"
    and "0 \<le> i" and "i < int (length tabs)"
    and "\<not> predicate (tabs ! nat i) opts"
    and "direction opts = Some ''left''" and "padding opts = Some 0"
  shows "getStackPosition i tabs predicate opts =
           Some (if \<exists>b. 0 \<le> b \<and> b < i \<and> predicate (tabs ! nat b) opts
                 then i - Max {b. 0 \<le> b \<and> b < i \<and> predicate (tabs ! nat b) opts} - 1
                 else i)"
proof -
  let ?B = "{b. 0 \<le> b \<and> b < i \<and> predicate (tabs ! nat b) opts}"
  let ?L = "blockingTabIndexes tabs predicate opts"
  have sorted: "sorted_wrt (<) ?L"
    and setL: "set ?L = {b. 0 \<le> b \<and> b < int (length tabs) \<and> predicate (tabs ! nat b) opts}"
    using assms(1) by (simp_all only: blockingTabIndexes_once blocking_index_list_sorted blocking_index_list_set)
  have fin: "finite ?B"
  proof (rule finite_subset)
    show "?B \<subseteq> {0..i}" by auto
  qed simp
  have raw: "getStackPosition i tabs predicate opts =
      (let d = (case findLast (\<lambda>index. index < i) ?L of None \<Rightarrow> \<bar>0 - i\<bar> | Some b \<Rightarrow> i - b - 1)
       in if d < 0 then None else Some d)"
    using assms(2-6) by (simp add: getStackPosition_def applyPadding_def Let_def)
  show ?thesis
  proof (cases "\<exists>b. 0 \<le> b \<and> b < i \<and> predicate (tabs ! nat b) opts")
    case True
    then have ne: "?B \<noteq> {}" by auto
    from Max_in[OF fin ne] have mem: "Max ?B \<in> ?B" .
    then have "Max ?B \<in> set ?L" using assms(3) by (simp add: setL)
    moreover have "Max ?B < i" using mem by simp
    moreover have "\<forall>y\<in>set ?L. y \<le> Max ?B \<or> i \<le> y"
    proof
      fix y assume "y \<in> set ?L"
      then have y: "0 \<le> y" "predicate (tabs ! nat y) opts" by (simp_all add: setL)
      show "y \<le> Max ?B \<or> i \<le> y"
      proof (cases "y < i")
        case True
        with y have "y \<in> ?B" by simp
        then show ?thesis using Max_ge[OF fin] by blast
      next
        case False
        then show ?thesis by simp
      qed
    qed
    ultimately have "findLast (\<lambda>x. x < i) ?L = Some (Max ?B)"
      using sorted by (intro findLast_greatest)
    with True mem show ?thesis by (simp add: raw Let_def)
  next
    case False
    then have "\<forall>x\<in>set ?L. \<not> x < i" by (auto simp: setL)
    then have "findLast (\<lambda>x. x < i) ?L = None" by (simp add: findLast_None)
    with assms(2) show ?thesis unfolding if_not_P[OF False] by (simp add: raw Let_def)
  qed
qed

text \<open>
  Instances. Of five distinct tabs the second is pinned and the fourth is active: the
  distance to the left is \<open>3 - 1 - 1 = 1\<close>. Of three distinct tabs the third is pinned and
  the second is active: no blocking tab stands to the left and the distance is the active
  index, 1. In the sequence \<open>[5, 5, 7, 8]\<close> a tab that is not blocking stands at two places,
  the pinned tab at index 2 and the active tab at index 3: the distance is \<open>3 - 2 - 1 = 0\<close>.
\<close>

theorem getStackPosition_left_witness:
  "distinct (filter (\<lambda>tab. pinnedIn exampleStore tab (exampleOptions ''left'' 0)) [5, 7, 6, 8, 9])
   \<and> (0::int) \<le> 3 \<and> (3::int) < int (length [5, 7, 6, 8, 9 :: tab_ref])
   \<and> \<not> pinnedIn exampleStore ([5, 7, 6, 8, 9] ! nat 3) (exampleOptions ''left'' 0)
   \<and> getStackPosition 3 [5, 7, 6, 8, 9] (pinnedIn exampleStore) (exampleOptions ''left'' 0) = Some 1
   \<and> distinct (filter (\<lambda>tab. pinnedIn exampleStore tab (exampleOptions ''left'' 0)) [5, 6, 7])
   \<and> (0::int) \<le> 1 \<and> (1::int) < int (length [5, 6, 7 :: tab_ref])
   \<and> \<not> pinnedIn exampleStore ([5, 6, 7] ! nat 1) (exampleOptions ''left'' 0)
   \<and> getStackPosition 1 [5, 6, 7] (pinnedIn exampleStore) (exampleOptions ''left'' 0) = Some 1
   \<and> distinct (filter (\<lambda>tab. pinnedIn exampleStore tab (exampleOptions ''left'' 0)) [5, 5, 7, 8])
   \<and> (0::int) \<le> 3 \<and> (3::int) < int (length [5, 5, 7, 8 :: tab_ref])
   \<and> \<not> pinnedIn exampleStore ([5, 5, 7, 8] ! nat 3) (exampleOptions ''left'' 0)
   \<and> getStackPosition 3 [5, 5, 7, 8] (pinnedIn exampleStore) (exampleOptions ''left'' 0) = Some 0"
proof -
  let ?tabs = "[5, 7, 6, 8, 9] :: tab_ref list"
  let ?tabs' = "[5, 6, 7] :: tab_ref list"
  let ?p = "pinnedIn exampleStore"
  let ?o = "exampleOptions ''left'' 0"
  have h1: "distinct (filter (\<lambda>tab. ?p tab ?o) ?tabs)" by (simp add: example_defs)
  have h2: "(0::int) \<le> 3" by simp
  have h3: "(3::int) < int (length ?tabs)" by simp
  have h4: "\<not> ?p (?tabs ! nat 3) ?o" by (simp add: example_defs)
  have h5: "direction ?o = Some ''left''" by (simp add: example_defs)
  have h6: "padding ?o = Some 0" by (simp add: example_defs)
  have B: "{b. 0 \<le> b \<and> b < 3 \<and> ?p (?tabs ! nat b) ?o} = {1}"
  proof (rule set_eqI)
    fix b :: int
    consider "b < 0 \<or> 3 \<le> b" | "b = 0" | "b = 1" | "b = 2" by arith
    then show "b \<in> {b. 0 \<le> b \<and> b < 3 \<and> ?p (?tabs ! nat b) ?o} \<longleftrightarrow> b \<in> {1}"
      by cases (auto simp: example_defs)
  qed
  have E: "\<exists>b. 0 \<le> b \<and> b < 3 \<and> ?p (?tabs ! nat b) ?o"
    by (rule exI[of _ 1]) (simp add: example_defs)
  have found: "getStackPosition 3 ?tabs ?p ?o = Some 1"
    using getStackPosition_left[where tabs = ?tabs and i = 3 and predicate = ?p and opts = ?o,
        OF h1 h2 h3 h4 h5 h6] unfolding if_P[OF E] B by simp
  have g1: "distinct (filter (\<lambda>tab. ?p tab ?o) ?tabs')" by (simp add: example_defs)
  have g2: "(0::int) \<le> 1" by simp
  have g3: "(1::int) < int (length ?tabs')" by simp
  have g4: "\<not> ?p (?tabs' ! nat 1) ?o" by (simp add: example_defs)
  have N: "\<not> (\<exists>b. 0 \<le> b \<and> b < 1 \<and> ?p (?tabs' ! nat b) ?o)"
  proof
    assume "\<exists>b. 0 \<le> b \<and> b < 1 \<and> ?p (?tabs' ! nat b) ?o"
    then obtain b :: int where "0 \<le> b" "b < 1" "?p (?tabs' ! nat b) ?o" by blast
    then have "b = 0" "?p (?tabs' ! nat b) ?o" by simp_all
    then show False by (simp add: example_defs)
  qed
  have none: "getStackPosition 1 ?tabs' ?p ?o = Some 1"
    using getStackPosition_left[where tabs = ?tabs' and i = 1 and predicate = ?p and opts = ?o,
        OF g1 g2 g3 g4 h5 h6] unfolding if_not_P[OF N] .
  let ?tabs2 = "[5, 5, 7, 8] :: tab_ref list"
  have k1: "distinct (filter (\<lambda>tab. ?p tab ?o) ?tabs2)" by (simp add: example_defs)
  have k3: "(3::int) < int (length ?tabs2)" by simp
  have k4: "\<not> ?p (?tabs2 ! nat 3) ?o" by (simp add: example_defs)
  have B2: "{b. 0 \<le> b \<and> b < 3 \<and> ?p (?tabs2 ! nat b) ?o} = {2}"
  proof (rule set_eqI)
    fix b :: int
    consider "b < 0 \<or> 3 \<le> b" | "b = 0" | "b = 1" | "b = 2" by arith
    then show "b \<in> {b. 0 \<le> b \<and> b < 3 \<and> ?p (?tabs2 ! nat b) ?o} \<longleftrightarrow> b \<in> {2}"
      by cases (auto simp: example_defs)
  qed
  have E2: "\<exists>b. 0 \<le> b \<and> b < 3 \<and> ?p (?tabs2 ! nat b) ?o"
    by (rule exI[of _ 2]) (simp add: example_defs)
  have twice: "getStackPosition 3 ?tabs2 ?p ?o = Some 0"
    using getStackPosition_left[where tabs = ?tabs2 and i = 3 and predicate = ?p and opts = ?o,
        OF k1 h2 k3 k4 h5 h6] unfolding if_P[OF E2] B2 by simp
  from h1 h2 h3 h4 found g1 g2 g3 g4 none k1 h2 k3 k4 twice show ?thesis by (intro conjI)
qed

subsection \<open>Direction right\<close>

text \<open>
  Claim C2. For every tab sequence, every active index in range whose tab is not blocking,
  direction \<open>right\<close> and padding 0, \<open>getStackPosition\<close> returns \<open>i - activeIndex - 1\<close>
  for the smallest blocking index \<open>i\<close> strictly above the active index when there is one,
  and \<open>tabs.length - activeIndex - 1\<close> when there is none. As for the direction
  \<open>left\<close>, the first hypothesis asks that no blocking tab object stands at two places of
  the sequence, which holds for every tab group of the host.
\<close>

theorem getStackPosition_right:
  assumes "distinct (filter (\<lambda>tab. predicate tab opts) tabs)"
    and "0 \<le> i" and "i < int (length tabs)"
    and "\<not> predicate (tabs ! nat i) opts"
    and "direction opts = Some ''right''" and "padding opts = Some 0"
  shows "getStackPosition i tabs predicate opts =
           Some (if \<exists>b. i < b \<and> b < int (length tabs) \<and> predicate (tabs ! nat b) opts
                 then Min {b. i < b \<and> b < int (length tabs) \<and> predicate (tabs ! nat b) opts} - i - 1
                 else int (length tabs) - i - 1)"
proof -
  let ?B = "{b. i < b \<and> b < int (length tabs) \<and> predicate (tabs ! nat b) opts}"
  let ?L = "blockingTabIndexes tabs predicate opts"
  have sorted: "sorted_wrt (<) ?L"
    and setL: "set ?L = {b. 0 \<le> b \<and> b < int (length tabs) \<and> predicate (tabs ! nat b) opts}"
    using assms(1) by (simp_all only: blockingTabIndexes_once blocking_index_list_sorted blocking_index_list_set)
  have fin: "finite ?B"
  proof (rule finite_subset)
    show "?B \<subseteq> {i..int (length tabs)}" by auto
  qed simp
  have raw: "getStackPosition i tabs predicate opts =
      (let d = (case List.find (\<lambda>index. index > i) ?L of
                  None \<Rightarrow> int (length tabs) - i - 1 | Some b \<Rightarrow> b - i - 1)
       in if d < 0 then None else Some d)"
    using assms(2-6) by (simp add: getStackPosition_def applyPadding_def Let_def)
  show ?thesis
  proof (cases "\<exists>b. i < b \<and> b < int (length tabs) \<and> predicate (tabs ! nat b) opts")
    case True
    then have ne: "?B \<noteq> {}" by auto
    from Min_in[OF fin ne] have mem: "Min ?B \<in> ?B" .
    then have "Min ?B \<in> set ?L" using assms(2) by (simp add: setL)
    moreover have "i < Min ?B" using mem by simp
    moreover have "\<forall>y\<in>set ?L. y \<le> i \<or> Min ?B \<le> y"
    proof
      fix y assume "y \<in> set ?L"
      then have y: "y < int (length tabs)" "predicate (tabs ! nat y) opts" by (simp_all add: setL)
      show "y \<le> i \<or> Min ?B \<le> y"
      proof (cases "i < y")
        case True
        with y have "y \<in> ?B" by simp
        then show ?thesis using Min_le[OF fin] by blast
      next
        case False
        then show ?thesis by simp
      qed
    qed
    ultimately have "List.find (\<lambda>x. x > i) ?L = Some (Min ?B)"
      using sorted by (intro find_least)
    with True mem show ?thesis by (simp add: raw Let_def)
  next
    case False
    then have "\<forall>x\<in>set ?L. \<not> x > i" by (auto simp: setL)
    then have "List.find (\<lambda>x. x > i) ?L = None" by (simp add: find_None_iff)
    with assms(3) show ?thesis unfolding if_not_P[OF False] by (simp add: raw Let_def)
  qed
qed

text \<open>
  Instances. Of five distinct tabs the third is pinned and the first is active: the
  distance to the right is \<open>2 - 0 - 1 = 1\<close>. Of five distinct tabs the second is pinned
  and the fourth is active: no blocking tab stands to the right and the distance is
  \<open>5 - 3 - 1 = 1\<close>.
\<close>

theorem getStackPosition_right_witness:
  "distinct (filter (\<lambda>tab. pinnedIn exampleStore tab (exampleOptions ''right'' 0)) [5, 6, 7, 8, 9])
   \<and> (0::int) \<le> 0 \<and> (0::int) < int (length [5, 6, 7, 8, 9 :: tab_ref])
   \<and> \<not> pinnedIn exampleStore ([5, 6, 7, 8, 9] ! nat 0) (exampleOptions ''right'' 0)
   \<and> getStackPosition 0 [5, 6, 7, 8, 9] (pinnedIn exampleStore) (exampleOptions ''right'' 0) = Some 1
   \<and> distinct (filter (\<lambda>tab. pinnedIn exampleStore tab (exampleOptions ''right'' 0)) [5, 7, 6, 8, 9])
   \<and> (0::int) \<le> 3 \<and> (3::int) < int (length [5, 7, 6, 8, 9 :: tab_ref])
   \<and> \<not> pinnedIn exampleStore ([5, 7, 6, 8, 9] ! nat 3) (exampleOptions ''right'' 0)
   \<and> getStackPosition 3 [5, 7, 6, 8, 9] (pinnedIn exampleStore) (exampleOptions ''right'' 0) = Some 1"
proof -
  let ?tabs = "[5, 6, 7, 8, 9] :: tab_ref list"
  let ?tabs' = "[5, 7, 6, 8, 9] :: tab_ref list"
  let ?p = "pinnedIn exampleStore"
  let ?o = "exampleOptions ''right'' 0"
  have h1: "distinct (filter (\<lambda>tab. ?p tab ?o) ?tabs)" by (simp add: example_defs)
  have h2: "(0::int) \<le> 0" by simp
  have h3: "(0::int) < int (length ?tabs)" by simp
  have h4: "\<not> ?p (?tabs ! nat 0) ?o" by (simp add: example_defs)
  have h5: "direction ?o = Some ''right''" by (simp add: example_defs)
  have h6: "padding ?o = Some 0" by (simp add: example_defs)
  have B: "{b. 0 < b \<and> b < int (length ?tabs) \<and> ?p (?tabs ! nat b) ?o} = {2}"
  proof (rule set_eqI)
    fix b :: int
    consider "b \<le> 0 \<or> 5 \<le> b" | "b = 1" | "b = 2" | "b = 3" | "b = 4" by arith
    then show "b \<in> {b. 0 < b \<and> b < int (length ?tabs) \<and> ?p (?tabs ! nat b) ?o} \<longleftrightarrow> b \<in> {2}"
      by cases (auto simp: example_defs)
  qed
  have E: "\<exists>b. 0 < b \<and> b < int (length ?tabs) \<and> ?p (?tabs ! nat b) ?o"
    by (rule exI[of _ 2]) (simp add: example_defs)
  have found: "getStackPosition 0 ?tabs ?p ?o = Some 1"
    using getStackPosition_right[where tabs = ?tabs and i = 0 and predicate = ?p and opts = ?o,
        OF h1 h2 h3 h4 h5 h6] unfolding if_P[OF E] B by simp
  have g1: "distinct (filter (\<lambda>tab. ?p tab ?o) ?tabs')" by (simp add: example_defs)
  have g2: "(0::int) \<le> 3" by simp
  have g3: "(3::int) < int (length ?tabs')" by simp
  have g4: "\<not> ?p (?tabs' ! nat 3) ?o" by (simp add: example_defs)
  have N: "\<not> (\<exists>b. 3 < b \<and> b < int (length ?tabs') \<and> ?p (?tabs' ! nat b) ?o)"
  proof
    assume "\<exists>b. 3 < b \<and> b < int (length ?tabs') \<and> ?p (?tabs' ! nat b) ?o"
    then obtain b :: int where "3 < b" "b < int (length ?tabs')" "?p (?tabs' ! nat b) ?o" by blast
    then have "b = 4" "?p (?tabs' ! nat b) ?o" by simp_all
    then show False by (simp add: example_defs)
  qed
  have none: "getStackPosition 3 ?tabs' ?p ?o = Some 1"
    using getStackPosition_right[where tabs = ?tabs' and i = 3 and predicate = ?p and opts = ?o,
        OF g1 g2 g3 g4 h5 h6] unfolding if_not_P[OF N] by simp
  from h1 h2 h3 h4 found g1 g2 g3 g4 none show ?thesis by (intro conjI)
qed

subsection \<open>Padding\<close>

text \<open>
  Claim C3. For every positive padding \<open>p\<close> the distance returned is
  \<open>max(0, rawDistance - p)\<close>, where \<open>rawDistance\<close> is the distance computed without
  padding: the result for the same tabs, with the same verdicts of the predicate, and
  padding 0 (or no padding, which gives the same). Where the one call returns no move, so
  does the other. This holds in both directions, with and without a blocking tab on that
  side, and the distance is never negative.
\<close>

theorem getStackPosition_padding:
  assumes "0 < p"
  shows "getStackPosition i tabs predicate (opts\<lparr>padding := Some p\<rparr>) =
           map_option (\<lambda>rawDistance. max 0 (rawDistance - p))
             (getStackPosition i tabs (\<lambda>t _. predicate t (opts\<lparr>padding := Some p\<rparr>))
                (opts\<lparr>padding := Some 0\<rparr>))
       \<and> getStackPosition i tabs (\<lambda>t _. predicate t (opts\<lparr>padding := Some p\<rparr>)) (opts\<lparr>padding := None\<rparr>) =
           getStackPosition i tabs (\<lambda>t _. predicate t (opts\<lparr>padding := Some p\<rparr>)) (opts\<lparr>padding := Some 0\<rparr>)
       \<and> (\<forall>d. getStackPosition i tabs predicate (opts\<lparr>padding := Some p\<rparr>) = Some d \<longrightarrow> 0 \<le> d)"
proof (intro conjI)
  let ?P = "opts\<lparr>padding := Some p\<rparr>"
  let ?L = "blockingTabIndexes tabs predicate ?P"
  show "getStackPosition i tabs predicate ?P =
           map_option (\<lambda>rawDistance. max 0 (rawDistance - p))
             (getStackPosition i tabs (\<lambda>t _. predicate t ?P) (opts\<lparr>padding := Some 0\<rparr>))"
  proof (cases "i < 0 \<or> int (length tabs) \<le> i \<or> predicate (tabs ! nat i) ?P")
    case True
    then show ?thesis by (auto simp: getStackPosition_def)
  next
    case False
    then have range: "0 \<le> i" "i < int (length tabs)" and free: "\<not> predicate (tabs ! nat i) ?P"
      by auto
    note l = raw_left_nonneg[of i ?L]
    note r = raw_right_nonneg[OF range(2), of ?L]
    from assms range free l r show ?thesis
      by (simp add: getStackPosition_def blockingTabIndexes_fixed applyPadding_def Let_def)
  qed
  show "getStackPosition i tabs (\<lambda>t _. predicate t ?P) (opts\<lparr>padding := None\<rparr>) =
        getStackPosition i tabs (\<lambda>t _. predicate t ?P) (opts\<lparr>padding := Some 0\<rparr>)"
    by (simp add: getStackPosition_def blockingTabIndexes_fixed applyPadding_def Let_def)
  show "\<forall>d. getStackPosition i tabs predicate ?P = Some d \<longrightarrow> 0 \<le> d"
    by (auto simp: getStackPosition_def Let_def split: if_splits)
qed

text \<open>
  Instances: to the left a raw distance of 1 with padding 2 gives 0; to the right, with no
  blocking tab before the last one, a raw distance of 3 with padding 2 gives 1.
\<close>

theorem getStackPosition_padding_witness:
  "(0::int) < 2
   \<and> getStackPosition 3 [5, 7, 6, 8, 9] (pinnedIn exampleStore) (exampleOptions ''left'' 0) = Some 1
   \<and> getStackPosition 3 [5, 7, 6, 8, 9] (pinnedIn exampleStore) (exampleOptions ''left'' 2) = Some 0
   \<and> getStackPosition 0 [5, 6, 8, 9, 7] (pinnedIn exampleStore) (exampleOptions ''right'' 0) = Some 3
   \<and> getStackPosition 0 [5, 6, 8, 9, 7] (pinnedIn exampleStore) (exampleOptions ''right'' 2) = Some 1"
proof -
  have h: "(0::int) < 2" by simp
  have same: "(\<lambda>t _. pinnedIn exampleStore t opts) = pinnedIn exampleStore" for opts :: options
    by (intro ext) (simp add: pinnedIn_def)
  have l0: "getStackPosition 3 [5, 7, 6, 8, 9] (pinnedIn exampleStore) (exampleOptions ''left'' 0) = Some 1"
    by (simp add: calc_defs example_defs)
  have r0: "getStackPosition 0 [5, 6, 8, 9, 7] (pinnedIn exampleStore) (exampleOptions ''right'' 0) = Some 3"
    by (simp add: calc_defs example_defs)
  have pad: "(exampleOptions d 0)\<lparr>padding := Some 2\<rparr> = exampleOptions d 2"
    "(exampleOptions d 0)\<lparr>padding := Some 0\<rparr> = exampleOptions d 0" for d
    by (simp_all add: exampleOptions_def)
  have l2: "getStackPosition 3 [5, 7, 6, 8, 9] (pinnedIn exampleStore) (exampleOptions ''left'' 2) = Some 0"
    using getStackPosition_padding[OF h, of 3 "[5, 7, 6, 8, 9]" "pinnedIn exampleStore" "exampleOptions ''left'' 0"]
    by (simp add: same pad l0)
  have r2: "getStackPosition 0 [5, 6, 8, 9, 7] (pinnedIn exampleStore) (exampleOptions ''right'' 2) = Some 1"
    using getStackPosition_padding[OF h, of 0 "[5, 6, 8, 9, 7]" "pinnedIn exampleStore" "exampleOptions ''right'' 0"]
    by (simp add: same pad r0)
  from h l0 l2 r0 r2 show ?thesis by blast
qed

subsection \<open>No move\<close>

text \<open>
  Claim C4. If the active index is out of the range of the sequence, or the tab at the
  active index satisfies the blocking predicate, \<open>getStackPosition\<close> returns no move.
\<close>

theorem getStackPosition_blocked:
  assumes "i < 0 \<or> int (length tabs) \<le> i \<or> predicate (tabs ! nat i) opts"
  shows "getStackPosition i tabs predicate opts = None"
  using assms by (auto simp: getStackPosition_def)

text \<open>
  Instances: an index past the end, a negative index, and the index of the pinned tab.
\<close>

theorem getStackPosition_blocked_witness:
  "int (length [5, 7, 6, 8, 9 :: tab_ref]) \<le> 5
   \<and> getStackPosition 5 [5, 7, 6, 8, 9] (pinnedIn exampleStore) (exampleOptions ''left'' 0) = None
   \<and> (- 1 :: int) < 0
   \<and> getStackPosition (- 1) [5, 7, 6, 8, 9] (pinnedIn exampleStore) (exampleOptions ''left'' 0) = None
   \<and> pinnedIn exampleStore ([5, 7, 6, 8, 9] ! nat 1) (exampleOptions ''right'' 0)
   \<and> getStackPosition 1 [5, 7, 6, 8, 9] (pinnedIn exampleStore) (exampleOptions ''right'' 0) = None"
proof -
  let ?tabs = "[5, 7, 6, 8, 9] :: tab_ref list"
  have a: "int (length ?tabs) \<le> 5" by simp
  have b: "(- 1 :: int) < 0" by simp
  have c: "pinnedIn exampleStore (?tabs ! nat 1) (exampleOptions ''right'' 0)"
    by (simp add: example_defs)
  from a have a': "(5::int) < 0 \<or> int (length ?tabs) \<le> 5
      \<or> pinnedIn exampleStore (?tabs ! nat 5) (exampleOptions ''left'' 0)" by blast
  from b have b': "- 1 < (0::int) \<or> int (length ?tabs) \<le> - 1
      \<or> pinnedIn exampleStore (?tabs ! nat (- 1)) (exampleOptions ''left'' 0)" by blast
  from c have c': "1 < (0::int) \<or> int (length ?tabs) \<le> 1
      \<or> pinnedIn exampleStore (?tabs ! nat 1) (exampleOptions ''right'' 0)" by blast
  from a b c
    getStackPosition_blocked[where i = 5 and tabs = ?tabs and predicate = "pinnedIn exampleStore"
      and opts = "exampleOptions ''left'' 0", OF a']
    getStackPosition_blocked[where i = "- 1" and tabs = ?tabs and predicate = "pinnedIn exampleStore"
      and opts = "exampleOptions ''left'' 0", OF b']
    getStackPosition_blocked[where i = 1 and tabs = ?tabs and predicate = "pinnedIn exampleStore"
      and opts = "exampleOptions ''right'' 0", OF c']
  show ?thesis by blast
qed

text \<open>
  Claim C10. If the direction of the options is neither \<open>left\<close> nor \<open>right\<close>,
  \<open>getStackPosition\<close> returns no move, whatever the tabs and the active index.
\<close>

theorem getStackPosition_other_direction:
  assumes "direction opts \<noteq> Some ''left''" and "direction opts \<noteq> Some ''right''"
  shows "getStackPosition i tabs predicate opts = None"
  using assms by (simp add: getStackPosition_def)

text \<open>
  Instances: direction \<open>auto\<close> and an absent direction give no move for an active tab
  in range and not blocking, for which both \<open>left\<close> and \<open>right\<close> give the distance 1.
\<close>

theorem getStackPosition_other_direction_witness:
  "direction (exampleOptions ''auto'' 0) \<noteq> Some ''left''
   \<and> direction (exampleOptions ''auto'' 0) \<noteq> Some ''right''
   \<and> getStackPosition 3 [5, 7, 6, 8, 9] (pinnedIn exampleStore) (exampleOptions ''auto'' 0) = None
   \<and> getStackPosition 3 [5, 7, 6, 8, 9] (pinnedIn exampleStore)
       ((exampleOptions ''auto'' 0)\<lparr>direction := None\<rparr>) = None
   \<and> getStackPosition 3 [5, 7, 6, 8, 9] (pinnedIn exampleStore) (exampleOptions ''left'' 0) = Some 1
   \<and> getStackPosition 3 [5, 7, 6, 8, 9] (pinnedIn exampleStore) (exampleOptions ''right'' 0) = Some 1"
proof -
  have a: "direction (exampleOptions ''auto'' 0) \<noteq> Some ''left''"
    and b: "direction (exampleOptions ''auto'' 0) \<noteq> Some ''right''"
    by (simp_all add: exampleOptions_def)
  have c: "direction ((exampleOptions ''auto'' 0)\<lparr>direction := None\<rparr>) \<noteq> Some ''left''"
    and d: "direction ((exampleOptions ''auto'' 0)\<lparr>direction := None\<rparr>) \<noteq> Some ''right''"
    by simp_all
  have l: "getStackPosition 3 [5, 7, 6, 8, 9] (pinnedIn exampleStore) (exampleOptions ''left'' 0) = Some 1"
    by (simp add: calc_defs example_defs)
  have r: "getStackPosition 3 [5, 7, 6, 8, 9] (pinnedIn exampleStore) (exampleOptions ''right'' 0) = Some 1"
    by (simp add: calc_defs example_defs)
  from a b l r getStackPosition_other_direction[OF a b] getStackPosition_other_direction[OF c d]
  show ?thesis by blast
qed

section \<open>Properties of the options resolver\<close>

text \<open>
  Claim C5. The effective filter list is the configured list when that list holds a member
  of the default set \<open>["pinned"]\<close>, and the default set itself otherwise; the configured
  list \<open>["dirty"]\<close> gives \<open>["pinned"]\<close>.
\<close>

theorem getBlockMoveFiltersOption_substitution:
  "defaultBlockMoveFilters = [''pinned'']
   \<and> getBlockMoveFiltersOption opts =
       (if set (blockMoveFilters opts) \<inter> set defaultBlockMoveFilters \<noteq> {}
        then blockMoveFilters opts else defaultBlockMoveFilters)
   \<and> getBlockMoveFiltersOption (opts\<lparr>blockMoveFilters := [''dirty'']\<rparr>) = [''pinned'']"
  by (auto simp: getBlockMoveFiltersOption_def defaultBlockMoveFilters_def list_ex_iff)

section \<open>Properties of the variable resolver\<close>

lemma variables_names: "map fst (variables h args) = variableNames"
  by (simp add: variables_def variableNames_def)

lemma variableNames_distinct: "distinct variableNames"
  by (simp add: variableNames_def)

lemma variableNames_plain: "\<forall>k\<in>set variableNames. plainName k"
  by (simp add: variableNames_def plainName_def)

lemma variablePattern_Cons: "variablePattern k = CHR ''$'' # (CHR ''{'' # k @ ''}'')"
  by (simp add: variablePattern_def)

lemma scan_plain_text:
  "CHR ''$'' \<notin> set x \<Longrightarrow>
   replaceAllScan (CHR ''$'' # pt) rep pre (x @ y) = x @ replaceAllScan (CHR ''$'' # pt) rep (pre @ x) y"
proof (induction x arbitrary: pre)
  case Nil
  then show ?case by simp
next
  case (Cons c x)
  then have "c \<noteq> CHR ''$''" by auto
  then have "replaceAllScan (CHR ''$'' # pt) rep pre ((c # x) @ y) =
      c # replaceAllScan (CHR ''$'' # pt) rep (pre @ [c]) (x @ y)"
    by (subst replaceAllScan.simps) simp
  with Cons show ?case by simp
qed

lemma closing_unique:
  "prefix (l @ [c]) (j @ c # w) \<Longrightarrow> c \<notin> set l \<Longrightarrow> c \<notin> set j \<Longrightarrow> l = j"
proof (induction l arbitrary: j)
  case Nil
  then show ?case by (cases j) auto
next
  case (Cons a l)
  then show ?case by (cases j) auto
qed

lemma token_prefix_unique:
  assumes "prefix (variablePattern l) (variablePattern j @ w)" "plainName l" "plainName j"
  shows "l = j"
proof -
  from assms(1) have "prefix (l @ ''}'') (j @ CHR ''}'' # w)"
    by (simp add: variablePattern_def)
  with assms(2,3) show ?thesis by (auto simp: plainName_def dest: closing_unique)
qed

lemma token_no_overlap:
  assumes "plainName l" "plainName j" "l \<noteq> j"
    and "sublist (variablePattern j) (variablePattern l @ s)"
  shows "sublist (variablePattern j) s"
proof -
  from assms(4) obtain ps ss where eq: "variablePattern l @ s = ps @ variablePattern j @ ss"
    by (auto simp: sublist_def)
  then consider us where "variablePattern l = ps @ us" "us @ s = variablePattern j @ ss"
    | us where "variablePattern l @ us = ps" "s = us @ variablePattern j @ ss"
    by (auto simp: append_eq_append_conv2)
  then show ?thesis
  proof cases
    case 1
    show ?thesis
    proof (cases us)
      case Nil
      with 1 show ?thesis by simp
    next
      case (Cons u us')
      with 1(2) have u: "u = CHR ''$''" by (simp add: variablePattern_Cons)
      show ?thesis
      proof (cases ps)
        case Nil
        with 1 have "variablePattern j @ ss = variablePattern l @ s" by simp
        then have "prefix (variablePattern l) (variablePattern j @ ss)" by (rule prefixI)
        with assms(1-3) token_prefix_unique show ?thesis by blast
      next
        case (Cons p ps')
        with 1(1) \<open>us = u # us'\<close> have "u \<in> set (CHR ''{'' # l @ ''}'')"
          by (auto simp: variablePattern_Cons dest: arg_cong[where f = set])
        with u assms(1) show ?thesis by (simp add: plainName_def)
      qed
    qed
  next
    case 2
    then show ?thesis by simp
  qed
qed

lemma scan_keeps_token:
  assumes "plainName l" "plainName j" "l \<noteq> j"
  shows "sublist (variablePattern j) s \<Longrightarrow>
         sublist (variablePattern j) (replaceAllScan (variablePattern l) rep pre s)"
proof (induction "length s" arbitrary: s pre rule: less_induct)
  case less
  from less.prems have ne: "s \<noteq> []" by (auto simp: variablePattern_Cons)
  show ?case
  proof (cases "prefix (variablePattern l) s")
    case True
    then obtain s' where s: "s = variablePattern l @ s'" by (auto simp: prefix_def)
    with less.prems assms have "sublist (variablePattern j) s'"
      by (auto dest: token_no_overlap)
    moreover have "length s' < length s" by (simp add: s variablePattern_Cons)
    ultimately have "sublist (variablePattern j)
        (replaceAllScan (variablePattern l) rep (pre @ variablePattern l) s')"
      by (rule less.hyps[rotated])
    then have "sublist (variablePattern j)
        (getSubstitution (variablePattern l) pre s' rep
          @ replaceAllScan (variablePattern l) rep (pre @ variablePattern l) s')"
      by (metis sublist_order.order_trans sublist_append_leftI)
    moreover have "replaceAllScan (variablePattern l) rep pre s =
        getSubstitution (variablePattern l) pre s' rep
          @ replaceAllScan (variablePattern l) rep (pre @ variablePattern l) s'"
      using True ne by (subst replaceAllScan.simps) (simp add: s variablePattern_Cons)
    ultimately show ?thesis by simp
  next
    case False
    from ne obtain c cs where s: "s = c # cs" by (cases s) auto
    have step: "replaceAllScan (variablePattern l) rep pre s =
        c # replaceAllScan (variablePattern l) rep (pre @ [c]) cs"
      using False by (subst replaceAllScan.simps) (simp add: s)
    from less.prems s consider "prefix (variablePattern j) (c # cs)" | "sublist (variablePattern j) cs"
      by (auto simp: sublist_Cons_right)
    then show ?thesis
    proof cases
      case 1
      then obtain w where cs: "c = CHR ''$''" "cs = (CHR ''{'' # j @ ''}'') @ w"
        by (auto simp: prefix_def variablePattern_Cons)
      have "CHR ''$'' \<notin> set (CHR ''{'' # j @ ''}'')"
        using assms(2) by (simp add: plainName_def)
      then have "replaceAllScan (variablePattern l) rep (pre @ [c]) cs =
          (CHR ''{'' # j @ ''}'') @
            replaceAllScan (variablePattern l) rep ((pre @ [c]) @ (CHR ''{'' # j @ ''}'')) w"
        unfolding cs(2) variablePattern_Cons[of l] by (rule scan_plain_text)
      with step cs(1) have "replaceAllScan (variablePattern l) rep pre s =
          variablePattern j @
            replaceAllScan (variablePattern l) rep ((pre @ [c]) @ (CHR ''{'' # j @ ''}'')) w"
        by (simp add: variablePattern_Cons)
      then show ?thesis by simp
    next
      case 2
      moreover have "length cs < length s" by (simp add: s)
      ultimately have "sublist (variablePattern j)
          (replaceAllScan (variablePattern l) rep (pre @ [c]) cs)"
        by (rule less.hyps[rotated])
      with step show ?thesis by (simp add: sublist_Cons_right)
    qed
  qed
qed

lemma passes_keep_token:
  assumes "plainName j"
  shows "\<forall>e\<in>set entries. plainName (fst e) \<and> fst e \<noteq> j \<Longrightarrow>
         sublist (variablePattern j) s \<Longrightarrow>
         sublist (variablePattern j) (resolvePasses entries s)"
proof (induction entries arbitrary: s)
  case Nil
  then show ?case by (simp add: resolvePasses_def)
next
  case (Cons e entries)
  from Cons.prems have "sublist (variablePattern j) (replaceAll (variablePattern (fst e)) (snd e) s)"
    unfolding replaceAll_def using assms by (intro scan_keeps_token) auto
  with Cons.prems(1) have "sublist (variablePattern j)
      (resolvePasses entries (replaceAll (variablePattern (fst e)) (snd e) s))"
    by (intro Cons.IH) auto
  then show ?case by (simp add: resolvePasses_def)
qed

lemma getSubstitution_plain_text:
  "CHR ''$'' \<notin> set x \<Longrightarrow> getSubstitution m b a (x @ y) = x @ getSubstitution m b a y"
proof (induction x)
  case Nil
  then show ?case by simp
next
  case (Cons c x)
  then have c: "c \<noteq> CHR ''$''" by auto
  show ?case
  proof (cases "x @ y")
    case Nil
    then show ?thesis by simp
  next
    case (Cons d r)
    with c have "getSubstitution m b a ((c # x) @ y) = c # getSubstitution m b a (x @ y)"
      by simp
    with Cons.IH Cons.prems show ?thesis by simp
  qed
qed

lemma token_length: "length (variablePattern j) = length j + 3"
  by (simp add: variablePattern_def)

lemma token_prefix_shape:
  "prefix (variablePattern j) (c # s) \<Longrightarrow> c = CHR ''$'' \<and> (\<exists>w. s = (CHR ''{'' # j @ ''}'') @ w)"
  by (auto simp: prefix_def variablePattern_Cons)

lemma getSubstitution_keeps_token:
  assumes "plainName j"
  shows "sublist (variablePattern j) v \<Longrightarrow>
         sublist (variablePattern j) (getSubstitution m b a v)"
proof (induction m b a v rule: getSubstitution.induct)
  case (1 m b a)
  then show ?case by (simp add: variablePattern_Cons)
next
  case (2 m b a c)
  then have "length (variablePattern j) \<le> length [c]" by (rule sublist_length_le)
  then show ?case by (simp add: token_length)
next
  case (3 m b a c d r)
  have plain: "CHR ''$'' \<notin> set (CHR ''{'' # j @ ''}'')"
    using assms by (simp add: plainName_def)
  have whole: "sublist (variablePattern j) (CHR ''$'' # getSubstitution m b a ((CHR ''{'' # j @ ''}'') @ w))" for w
    by (simp only: getSubstitution_plain_text[OF plain])
       (simp add: variablePattern_Cons sublist_Cons_right)
  from "3.prems" consider "prefix (variablePattern j) (c # d # r)" | "sublist (variablePattern j) (d # r)"
    by (auto simp: sublist_Cons_right)
  then show ?case
  proof cases
    case 1
    then obtain w where "c = CHR ''$''" "d # r = (CHR ''{'' # j @ ''}'') @ w"
      by (auto dest: token_prefix_shape)
    then have "d = CHR ''{''" "getSubstitution m b a (c # d # r) =
        CHR ''$'' # getSubstitution m b a ((CHR ''{'' # j @ ''}'') @ w)"
      by auto
    with whole show ?thesis by simp
  next
    case 2
    show ?thesis
    proof (cases "c = CHR ''$'' \<and> d = CHR ''$''")
      case True
      from 2 True consider "prefix (variablePattern j) (CHR ''$'' # r)" | "sublist (variablePattern j) r"
        by (auto simp: sublist_Cons_right)
      then show ?thesis
      proof cases
        case 1
        then obtain w where "r = (CHR ''{'' # j @ ''}'') @ w" by (auto dest: token_prefix_shape)
        with True whole show ?thesis by simp
      next
        case 2
        with True "3.IH"(1) have "sublist (variablePattern j) (getSubstitution m b a r)" by simp
        with True show ?thesis by (simp add: sublist_Cons_right)
      qed
    next
      case False
      note notdd = this
      show ?thesis
      proof (cases "c = CHR ''$'' \<and> (d = CHR ''&'' \<or> d = CHR 0x60 \<or> d = CHR 0x27)")
        case True
        then have "\<not> prefix (variablePattern j) (d # r)"
          by (auto dest: token_prefix_shape)
        with 2 have sub: "sublist (variablePattern j) r" by (simp add: sublist_Cons_right)
        from True sub "3.IH"(2,3,4) have "sublist (variablePattern j) (getSubstitution m b a r)"
          by auto
        then have "sublist (variablePattern j) (x @ getSubstitution m b a r)" for x
          by (metis sublist_order.order_trans sublist_append_leftI)
        with True show ?thesis by auto
      next
        case False
        with notdd "3.IH"(5) 2 have "sublist (variablePattern j) (getSubstitution m b a (d # r))"
          by auto
        moreover from False notdd have "getSubstitution m b a (c # d # r) =
            c # getSubstitution m b a (d # r)" by auto
        ultimately show ?thesis by (simp add: sublist_Cons_right)
      qed
    qed
  qed
qed

lemma scan_inserts_replacement:
  assumes "pat \<noteq> []"
  shows "sublist pat s \<Longrightarrow>
         \<exists>u b a w. replaceAllScan pat rep pre s = u @ getSubstitution pat b a rep @ w"
proof (induction "length s" arbitrary: s pre rule: less_induct)
  case less
  from less.prems assms have ne: "s \<noteq> []" by auto
  show ?case
  proof (cases "prefix pat s")
    case True
    with ne assms have "replaceAllScan pat rep pre s =
        [] @ getSubstitution pat pre (drop (length pat) s) rep
          @ replaceAllScan pat rep (pre @ pat) (drop (length pat) s)"
      by (subst replaceAllScan.simps) simp
    then show ?thesis by blast
  next
    case False
    from ne obtain c cs where s: "s = c # cs" by (cases s) auto
    have step: "replaceAllScan pat rep pre s = c # replaceAllScan pat rep (pre @ [c]) cs"
      using False by (subst replaceAllScan.simps) (simp add: s)
    from less.prems False s have "sublist pat cs" by (simp add: sublist_Cons_right)
    moreover have "length cs < length s" by (simp add: s)
    ultimately obtain u b a w where
      "replaceAllScan pat rep (pre @ [c]) cs = u @ getSubstitution pat b a rep @ w"
      using less.hyps by blast
    with step have "replaceAllScan pat rep pre s = (c # u) @ getSubstitution pat b a rep @ w"
      by simp
    then show ?thesis by blast
  qed
qed

lemma replaceAll_brings_token:
  assumes "plainName j" "sublist (variablePattern j) v" "sublist (variablePattern k) s"
  shows "sublist (variablePattern j) (replaceAll (variablePattern k) v s)"
proof -
  have "variablePattern k \<noteq> []" by (simp add: variablePattern_Cons)
  from scan_inserts_replacement[OF this assms(3)] obtain u b a w where
    "replaceAll (variablePattern k) v s = u @ getSubstitution (variablePattern k) b a v @ w"
    unfolding replaceAll_def by blast
  moreover have "sublist (variablePattern j) (getSubstitution (variablePattern k) b a v)"
    using assms(1,2) by (rule getSubstitution_keeps_token)
  ultimately show ?thesis
    by (metis sublist_order.order_trans sublist_appendI)
qed

lemma resolvePasses_append:
  "resolvePasses (xs @ ys) s = resolvePasses ys (resolvePasses xs s)"
  by (simp add: resolvePasses_def)

lemma resolvePasses_single:
  "resolvePasses [(k, v)] s = replaceAll (variablePattern k) v s"
  by (simp add: resolvePasses_def)

text \<open>
  Claim C7 says that a \<open>${name}\<close> token inside a substituted value is never expanded.
  The passes run one after the other over the whole text, so a token of a name that comes
  later in the table is expanded by the later pass. With the home directory \<open>${cwd}\<close> and
  the working directory \<open>/x/${userHome}\<close>, the filter \<open>path:${userHome}\<close> becomes
  \<open>path:${cwd}\<close> in the first pass and \<open>path:/x/${userHome}\<close> in the pass for \<open>cwd\<close>:
  the token \<open>${cwd}\<close> of the substituted value is not in the result.
\<close>

theorem resolveVariables_reexpands_counterexample:
  "map_of (variables exampleHost noArgs) ''userHome'' = Some ''${cwd}''
   \<and> sublist (variablePattern ''cwd'') ''${cwd}''
   \<and> resolveVariables exampleHost noArgs ''path:${userHome}'' = ''path:/x/${userHome}''
   \<and> \<not> sublist (variablePattern ''cwd'') (resolveVariables exampleHost noArgs ''path:${userHome}'')"
  by code_simp

text \<open>
  Claim C7, amended: each recognized name is substituted in one global pass, the names
  taken in the order of the \<open>variables\<close> table. When the pass for a name \<open>k\<close> finds its
  token in the text, and the value substituted for \<open>k\<close> contains the token of a recognized
  name \<open>j\<close> that is \<open>k\<close> itself or comes earlier in the table, that token is not expanded
  again: it appears literally in the result.
\<close>

theorem resolveVariables_earlier_token_literal:
  assumes "variables h args = earlier @ (k, v) # later"
    and "j = k \<or> j \<in> fst ` set earlier"
    and "sublist (variablePattern j) v"
    and "sublist (variablePattern k) (resolvePasses earlier template)"
  shows "sublist (variablePattern j) (resolveVariables h args template)"
proof -
  have names: "map fst earlier @ k # map fst later = variableNames"
    using variables_names[of h args] assms(1) by simp
  have "set (map fst earlier @ k # map fst later) = set (map fst earlier) \<union> {k} \<union> set (map fst later)"
    by auto
  then have allnames: "set variableNames = set (map fst earlier) \<union> {k} \<union> set (map fst later)"
    by (simp only: names)
  from assms(2) have jin: "j \<in> set (map fst earlier @ [k])" by auto
  with allnames have "j \<in> set variableNames" by auto
  with variableNames_plain have plain: "plainName j" by blast
  from variableNames_distinct names have "distinct (map fst earlier @ k # map fst later)" by simp
  with jin have "j \<notin> set (map fst later)" by auto
  moreover from allnames variableNames_plain have "\<forall>l\<in>set (map fst later). plainName l"
    by blast
  ultimately have later: "\<forall>e\<in>set later. plainName (fst e) \<and> fst e \<noteq> j" by auto
  have "sublist (variablePattern j)
      (replaceAll (variablePattern k) v (resolvePasses earlier template))"
    using plain assms(3,4) by (rule replaceAll_brings_token)
  with plain later have "sublist (variablePattern j)
      (resolvePasses later (replaceAll (variablePattern k) v (resolvePasses earlier template)))"
    by (intro passes_keep_token)
  moreover have "resolveVariables h args template =
      resolvePasses later (replaceAll (variablePattern k) v (resolvePasses earlier template))"
    unfolding resolveVariables_def assms(1)
    using resolvePasses_append[of earlier "(k, v) # later" template]
      resolvePasses_append[of "[(k, v)]" later] by (simp add: resolvePasses_single)
  ultimately show ?thesis by simp
qed

text \<open>
  An instance: the filter \<open>path:${cwd}\<close> becomes \<open>path:/x/${userHome}\<close>, and the token
  \<open>${userHome}\<close>, whose pass came first, stays in the result.
\<close>

theorem resolveVariables_earlier_token_literal_witness:
  "sublist (variablePattern ''userHome'') ''/x/${userHome}''
   \<and> sublist (variablePattern ''cwd'') (resolvePasses (take 12 (variables exampleHost noArgs)) ''path:${cwd}'')
   \<and> resolveVariables exampleHost noArgs ''path:${cwd}'' = ''path:/x/${userHome}''
   \<and> sublist (variablePattern ''userHome'') (resolveVariables exampleHost noArgs ''path:${cwd}'')"
proof -
  have split: "variables exampleHost noArgs =
      take 12 (variables exampleHost noArgs) @ (''cwd'', ''/x/${userHome}'')
        # drop 13 (variables exampleHost noArgs)"
    by code_simp
  have j: "''userHome'' = ''cwd'' \<or> ''userHome'' \<in> fst ` set (take 12 (variables exampleHost noArgs))"
    by code_simp
  have v: "sublist (variablePattern ''userHome'') ''/x/${userHome}''"
    by code_simp
  have k: "sublist (variablePattern ''cwd'') (resolvePasses (take 12 (variables exampleHost noArgs)) ''path:${cwd}'')"
    by code_simp
  have r: "resolveVariables exampleHost noArgs ''path:${cwd}'' = ''path:/x/${userHome}''"
    by code_simp
  from v k r resolveVariables_earlier_token_literal[OF split j v k] show ?thesis by simp
qed

section \<open>Properties of the blocking predicate\<close>

lemmas predicate_defs = isBlockingPredicate_def filterStep_def hasPrefix_def filterMapCustom_def
  findCustomMap_def filterMapLookup_def filterMap_def objectPrototype_def resolveFilter_def












lemma unknown_token_skipped:
  assumes "\<not> hasPrefix h f" and "f \<notin> fst ` set (filterMap h)" and "f \<notin> fst ` set objectPrototype"
  shows "filterStep h t rf f = (Inr False, rf)"
proof -
  from assms(2) have "map_of (filterMap h) f = None" by (simp add: map_of_eq_None_iff)
  moreover from assms(3) have "map_of objectPrototype f = None" by (simp add: map_of_eq_None_iff)
  ultimately show ?thesis using assms(1) by (simp add: filterStep_def filterMapLookup_def)
qed

text \<open>
  Claim C8 says that a token which neither starts with a custom prefix nor is a keyword of
  the filter registry never blocks and never raises. The lookup \<open>this.filterMap[f]\<close> also
  finds inherited properties: the token \<open>constructor\<close> classifies every tab as blocking,
  and the token \<open>valueOf\<close> raises a \<open>TypeError\<close> before the next token is evaluated.
  Every other token without a prefix and outside the registry is skipped
  (\<open>unknown_token_skipped\<close>).
\<close>

theorem isBlockingPredicate_inherited_name:
  "\<not> hasPrefix h ''constructor'' \<and> map_of (filterMap h) ''constructor'' = None
   \<and> fst (isBlockingPredicate h rf t (opts\<lparr>blockMoveFilters := [''constructor'']\<rparr>)) = Inr True
   \<and> fst (isBlockingPredicate h rf (t\<lparr>isPinned := False\<rparr>)
          (opts\<lparr>blockMoveFilters := [''pinned'', ''constructor'']\<rparr>)) = Inr True
   \<and> \<not> hasPrefix h ''valueOf'' \<and> map_of (filterMap h) ''valueOf'' = None
   \<and> fst (isBlockingPredicate h rf t (opts\<lparr>blockMoveFilters := [''valueOf'', ''pinned'']\<rparr>)) = Inl TypeError"
  by (simp add: predicate_defs)




end
